theory Spec2Isabelle
  imports Main "HOL-Library.List_Lexorder" "HOL-Library.Char_ord"
begin

section \<open>Data model\<close>

text \<open>
  A Dimension is a named symbolic axis. The code reads \<open>d.name\<close>, \<open>d.is_Space\<close>,
  \<open>d.is_Derived\<close>, \<open>d.parent\<close> and \<open>d.root\<close>; a derived dimension is one that has a
  parent, and the root is the topmost ancestor.
\<close>

datatype dimension = Dimension (name: string) (is_Space: bool) (parent: "dimension option")

definition is_Derived :: "dimension \<Rightarrow> bool" where
  "is_Derived d = (parent d \<noteq> None)"

fun root :: "dimension \<Rightarrow> dimension" where
  "root (Dimension n s None) = Dimension n s None"
| "root (Dimension n s (Some p)) = root p"

text \<open>
  Symbolic expressions, as far as the analyses look into them: a Dimension, another
  symbol, an integer literal, the base of an indexed access, an operator or function
  applied to arguments (\<open>Add\<close>, \<open>Mul\<close>, \<open>Tuple\<close>, ...), and an indexed access
  \<open>f[i1, ..., in]\<close>, which carries the name of its function, the dimensions the function
  declares (\<open>function.indices\<close>) and its index expressions (\<open>indices\<close>).
\<close>

datatype expr =
    Dim dimension
  | Symbol string
  | Integer int
  | IndexedBase string
  | Op string "expr list"
  | Indexed string "dimension list" "expr list"

text \<open>\<open>e.args\<close>: atoms have none; an indexed access has its base, then its indices.\<close>

fun args :: "expr \<Rightarrow> expr list" where
  "args (Op h as) = as"
| "args (Indexed f ds idx) = IndexedBase f # idx"
| "args _ = []"

fun indices :: "expr \<Rightarrow> expr list" where
  "indices (Indexed f ds idx) = idx"
| "indices _ = []"

fun function_indices :: "expr \<Rightarrow> dimension list" where
  "function_indices (Indexed f ds idx) = ds"
| "function_indices _ = []"

record equation =
  lhs :: expr
  rhs :: expr
  subdomain_indices :: "expr option"

section \<open>Stencil\<close>

text \<open>
  A Stencil is an ordered dictionary from Dimension to a set of integer offsets, with
  \<open>set\<close> as the default factory: an association list with one entry per key, in
  insertion order. Equality of two ordered dictionaries compares the entries in order,
  which is equality of the lists.
\<close>

type_synonym stencil = "(dimension \<times> int set) list"

text \<open>\<open>s[k] = v\<close>: an existing key keeps its place, a new key goes to the end.\<close>

fun setitem :: "stencil \<Rightarrow> dimension \<Rightarrow> int set \<Rightarrow> stencil" where
  "setitem [] k v = [(k, v)]"
| "setitem ((k', v') # s) k v =
     (if k' = k then (k, v) # s else (k', v') # setitem s k v)"

text \<open>
  \<open>s[k]\<close>: a missing key is first stored with the empty set made by the default
  factory; the value and the dictionary after the read are returned.
\<close>

definition getitem :: "stencil \<Rightarrow> dimension \<Rightarrow> int set \<times> stencil" where
  "getitem s k =
     (case map_of s k of
        Some v \<Rightarrow> (v, s)
      | None \<Rightarrow> ({}, setitem s k {}))"

text \<open>\<open>s[k] |= v\<close> and \<open>s[k].update(v)\<close>: read (with the default), unite, store.\<close>

definition ior_at :: "stencil \<Rightarrow> dimension \<Rightarrow> int set \<Rightarrow> stencil" where
  "ior_at s k v = (case getitem s k of (old, s') \<Rightarrow> setitem s' k (old \<union> v))"

text \<open>
  \<open>Stencil.get(k, v=None)\<close>: the dictionary's own \<open>get\<close> does not call the default
  factory; it gives the stored value, or \<open>v\<close> for a missing key. A result of \<open>None\<close>
  becomes \<open>frozenset([0])\<close>.
\<close>

definition Stencil_get :: "stencil \<Rightarrow> dimension \<Rightarrow> int set option \<Rightarrow> int set" where
  "Stencil_get s k v =
     (let obj = (case map_of s k of Some w \<Rightarrow> Some w | None \<Rightarrow> v)
      in case obj of None \<Rightarrow> {0} | Some w \<Rightarrow> w)"

text \<open>\<open>Stencil.union(*dicts)\<close>: every entry of every operand is united into the output.\<close>

definition union_items :: "stencil \<Rightarrow> stencil \<Rightarrow> stencil" where
  "union_items output i = foldl (\<lambda>out (k, v). ior_at out k v) output i"

definition Stencil_union :: "stencil list \<Rightarrow> stencil" where
  "Stencil_union dicts = foldl union_items [] dicts"







definition offsets_of :: "stencil \<Rightarrow> dimension \<Rightarrow> int set" where
  "offsets_of i k = \<Union> (snd ` {p \<in> set i. fst p = k})"

section \<open>Helpers of the symbolic layer\<close>

datatype error = ValueError | IndexError | KeyError | AttributeError | CycleDetected

text \<open>\<open>[d for d in xs if isinstance(d, Dimension)]\<close>\<close>

fun dimensions_in :: "expr list \<Rightarrow> dimension list" where
  "dimensions_in [] = []"
| "dimensions_in (Dim d # xs) = d # dimensions_in xs"
| "dimensions_in (_ # xs) = dimensions_in xs"

text \<open>
  Modelled from the spec: \<open>split_affine\<close> (module \<open>devito.symbolics\<close>) is not among the
  sources. The spec's Affine Index Decomposer succeeds iff the expression is exactly one
  Dimension, optionally combined with one integer literal by addition (a subtraction is
  an addition of the folded negative literal), and reports \<open>NotAffine\<close> otherwise; that
  report is the \<open>ValueError\<close> the caller catches, \<open>None\<close> here. On success the result
  is the variable and the offset.
\<close>

fun split_affine :: "expr \<Rightarrow> (expr \<times> int) option" where
  "split_affine (Dim d) = Some (Dim d, 0)"
| "split_affine (Op h [Integer n, Dim d]) = (if h = ''Add'' then Some (Dim d, n) else None)"
| "split_affine (Op h [Dim d, Integer n]) = (if h = ''Add'' then Some (Dim d, n) else None)"
| "split_affine _ = None"

text \<open>
  Modelled from the spec: \<open>retrieve_indexed\<close> (module \<open>devito.symbolics\<close>) is not among
  the sources. It searches an expression for indexed accesses. The callers pass
  \<open>mode='all'\<close> to keep every occurrence (the default keeps one of each) and \<open>deep=True\<close>
  to search the index expressions of an access as well (the default stops at the access).
\<close>

datatype mode = Unique | All

fun search_indexed :: "bool \<Rightarrow> expr \<Rightarrow> expr list" where
  "search_indexed deep (Indexed f ds idx) =
     Indexed f ds idx # (if deep then concat (map (search_indexed deep) idx) else [])"
| "search_indexed deep (Op h as) = concat (map (search_indexed deep) as)"
| "search_indexed deep _ = []"

text \<open>
  Modelled from the spec: \<open>retrieve_indexed(expr, mode, deep)\<close>, the search above with the
  two options of its callers; without \<open>mode='all'\<close> an access found twice is kept once.
\<close>

definition retrieve_indexed :: "mode \<Rightarrow> bool \<Rightarrow> expr \<Rightarrow> expr list" where
  "retrieve_indexed m deep e =
     (case m of All \<Rightarrow> search_indexed deep e | Unique \<Rightarrow> remdups (search_indexed deep e))"

text \<open>
  Modelled from the spec: \<open>free_symbols\<close> belongs to the symbolic library. It is the set
  of the symbols an expression mentions, here listed without repetition.
\<close>

fun symbols_of :: "expr \<Rightarrow> expr list" where
  "symbols_of (Dim d) = [Dim d]"
| "symbols_of (Symbol n) = [Symbol n]"
| "symbols_of (Integer n) = []"
| "symbols_of (IndexedBase f) = [IndexedBase f]"
| "symbols_of (Op h as) = concat (map symbols_of as)"
| "symbols_of (Indexed f ds idx) = IndexedBase f # concat (map symbols_of idx)"

text \<open>Modelled from the spec: \<open>e.free_symbols\<close>, the symbols of \<open>e\<close> as a set.\<close>

definition free_symbols :: "expr \<Rightarrow> expr list" where
  "free_symbols e = remdups (symbols_of e)"

text \<open>
  Modelled from the spec: the attribute \<open>name\<close>, the sorting key of \<open>filter_sorted\<close>; the
  name of a Dimension is its own.
\<close>

fun symbol_name :: "expr \<Rightarrow> string" where
  "symbol_name (Dim d) = name d"
| "symbol_name (Symbol n) = n"
| "symbol_name (IndexedBase f) = f"
| "symbol_name (Indexed f ds idx) = f"
| "symbol_name (Op h as) = h"
| "symbol_name (Integer n) = []"

text \<open>
  Modelled from the spec: \<open>filter_sorted\<close> (module \<open>devito.tools\<close>) is not among the
  sources. It sorts a collection deterministically by a key, the name by default.
\<close>

definition filter_sorted :: "('a \<Rightarrow> string) \<Rightarrow> 'a list \<Rightarrow> 'a list" where
  "filter_sorted key xs = sort_key key xs"

section \<open>Partial-order resolver\<close>

text \<open>
  Modelled from the spec: \<open>PartialOrderTuple\<close> (module \<open>devito.tools\<close>) is not among the
  sources. The spec's Partial-Order Resolver builds a directed graph whose vertices are
  the elements and everything mentioned in a relation, with an edge from each member of a
  relation to its immediate successor, and computes a topological order; among the
  vertices with no remaining precedence constraint it takes the first in a fixed order
  (the order of the elements, then the name); it fails with \<open>CycleDetected\<close> when the
  relations contain a directed cycle.
\<close>

definition edges_of :: "'a list list \<Rightarrow> ('a \<times> 'a) list" where
  "edges_of relations = concat (map (\<lambda>r. zip r (tl r)) relations)"

text \<open>
  Modelled from the spec: a vertex has no remaining precedence constraint when no edge
  leads to it from another vertex that is still to be placed. An edge from a vertex to
  itself, which a relation with a repeated dimension such as \<open>(x, x)\<close> brings, constrains
  nothing: the spec calls duplicates in a relation harmless, and line 87 builds such
  tuples itself, from the roots of \<open>(x, xi)\<close>.
\<close>

definition ready :: "('a \<times> 'a) list \<Rightarrow> 'a list \<Rightarrow> 'a \<Rightarrow> bool" where
  "ready es vs v = (\<not> list_ex (\<lambda>(a, b). b = v \<and> a \<noteq> v \<and> a \<in> set vs) es)"

text \<open>
  Modelled from the spec: the topological order. The vertices \<open>vs\<close> are listed in the
  fixed tie-breaking order; each step places the first ready vertex, and fails with
  \<open>CycleDetected\<close> when vertices remain and none is ready, which is the case when the
  edges between different vertices contain a directed cycle.
\<close>

function toposort :: "('a \<times> 'a) list \<Rightarrow> 'a list \<Rightarrow> error + 'a list" where
  "toposort es vs =
     (if vs = [] then Inr []
      else case find (ready es vs) vs of
             None \<Rightarrow> Inl CycleDetected
           | Some v \<Rightarrow>
               (case toposort es (removeAll v vs) of
                  Inl e \<Rightarrow> Inl e
                | Inr out \<Rightarrow> Inr (v # out)))"
  by pat_completeness auto
termination
proof (relation "measure (\<lambda>(es, vs). length vs)")
  show "wf (measure (\<lambda>(es, vs). length vs))"
    by simp
next
  fix es :: "('a \<times> 'a) list" and vs :: "'a list" and v
  assume "find (ready es vs) vs = Some v"
  then have "v \<in> set vs"
    by (auto simp: find_Some_iff)
  then show "((es, removeAll v vs), (es, vs)) \<in> measure (\<lambda>(es, vs). length vs)"
    by (simp add: length_removeAll_less)
qed

declare toposort.simps [simp del]

text \<open>
  Modelled from the spec: \<open>PartialOrderTuple(items, relations=...)\<close>. The vertices are the
  items in their order, then whatever else the relations mention, by name.
\<close>

definition PartialOrderTuple :: "('a \<Rightarrow> string) \<Rightarrow> 'a list \<Rightarrow> 'a list list \<Rightarrow> error + 'a list" where
  "PartialOrderTuple key items relations =
     toposort (edges_of relations)
       (items @ sort_key key (remdups (filter (\<lambda>v. v \<notin> set items) (concat relations))))"

text \<open>The place of an element in a sequence: the number of elements before its first occurrence.\<close>

definition position :: "'a list \<Rightarrow> 'a \<Rightarrow> nat" where
  "position xs a = length (takeWhile (\<lambda>x. x \<noteq> a) xs)"

definition before :: "'a list \<Rightarrow> 'a \<Rightarrow> 'a \<Rightarrow> bool" where
  "before xs a b = (a \<in> set xs \<and> b \<in> set xs \<and> position xs a < position xs b)"

section \<open>Dimension sort\<close>

text \<open>
  \<open>handle_indexed\<close>: the relation of one indexed access. For each index expression, in
  order: when \<open>split_affine\<close> succeeds, its variable is appended if it is a Dimension; when
  it raises, the relations of the accesses found inside the index expression are
  flattened and appended if that gives anything, and otherwise the Dimensions among the
  free symbols of the index expression, sorted by name, are appended.
\<close>

function handle_indexed :: "expr \<Rightarrow> dimension list" where
  "handle_indexed indexed =
     concat (map (\<lambda>i.
        case split_affine i of
          Some (maybe_dim, off) \<Rightarrow> (case maybe_dim of Dim d \<Rightarrow> [d] | _ \<Rightarrow> [])
        | None \<Rightarrow>
            (let nested = concat (map handle_indexed (retrieve_indexed Unique False i))
             in if nested \<noteq> [] then nested
                else dimensions_in (filter_sorted symbol_name (free_symbols i))))
      (indices indexed))"
  by pat_completeness auto
termination
proof (relation "measure size")
  show "wf (measure (size :: expr \<Rightarrow> nat))"
    by simp
next
  fix indexed i n :: expr
  assume i: "i \<in> set (indices indexed)"
    and n: "n \<in> set (retrieve_indexed Unique False i)"
  have sub: "m \<in> set (search_indexed deep e) \<Longrightarrow> size m \<le> size e" for m deep e
  proof (induction deep e rule: search_indexed.induct)
    case (1 deep f ds idx)
    then show ?case
      by (fastforce split: if_splits dest: size_list_estimation' [where f = size])
  next
    case (2 deep h as)
    then show ?case
      by (fastforce dest: size_list_estimation' [where f = size])
  qed simp_all
  have "size n \<le> size i"
    using n by (auto simp: retrieve_indexed_def intro: sub)
  moreover have "size i < size indexed"
    using i by (cases indexed) (auto dest: size_list_estimation' [where f = size and y = "size i"])
  ultimately show "(n, indexed) \<in> measure size"
    by simp
qed

declare handle_indexed.simps [simp del]

text \<open>The flattened relations of the accesses found inside an index expression.\<close>

abbreviation nested_relations :: "expr \<Rightarrow> dimension list" where
  "nested_relations i \<equiv> concat (map handle_indexed (retrieve_indexed Unique False i))"

text \<open>
  \<open>order_relations\<close>: the loop keeps two lists, the non-space and the space elements.
  A Dimension is filed by \<open>is_Space\<close>. An element with arguments is filed by the first
  Dimension among them; more than one Dimension raises \<open>ValueError\<close>, and with none the
  read of \<open>dim[0]\<close> raises \<open>IndexError\<close>. The result is the non-space list followed by
  the space list.
\<close>

fun order_loop :: "expr list \<Rightarrow> expr list \<Rightarrow> expr list \<Rightarrow> error + expr list \<times> expr list" where
  "order_loop [] ordered_ns ordered_sp = Inr (ordered_ns, ordered_sp)"
| "order_loop (i # unordered) ordered_ns ordered_sp =
     (let (ns, sp) =
        (case i of
           Dim d \<Rightarrow> if is_Space d then (ordered_ns, ordered_sp @ [i]) else (ordered_ns @ [i], ordered_sp)
         | _ \<Rightarrow> (ordered_ns, ordered_sp))
      in if args i \<noteq> [] then
           (let dim = dimensions_in (args i)
            in if length dim > 1 then Inl ValueError
               else case dim of
                      [] \<Rightarrow> Inl IndexError
                    | d0 # _ \<Rightarrow>
                        if is_Space d0 then order_loop unordered ns (sp @ [i])
                        else order_loop unordered (ns @ [i]) sp)
         else order_loop unordered ns sp)"

definition order_relations :: "expr list \<Rightarrow> error + expr list" where
  "order_relations unordered =
     (case order_loop unordered [] [] of
        Inl e \<Rightarrow> Inl e
      | Inr (ordered_ns, ordered_sp) \<Rightarrow> Inr (ordered_ns @ ordered_sp))"

text \<open>
  An equation is searched as the expression \<open>Eq(lhs, rhs)\<close>. Its Subdomain Ordering is
  \<open>expr._subdomain.indices\<close>, absent (\<open>None\<close>) when the attribute is missing.
\<close>

definition as_expr :: "equation \<Rightarrow> expr" where
  "as_expr eq = Op ''Eq'' [lhs eq, rhs eq]"

text \<open>\<open>bool(x)\<close> of an expression: a zero number and an empty tuple are false.\<close>

fun truthy :: "expr \<Rightarrow> bool" where
  "truthy (Integer n) = (n \<noteq> 0)"
| "truthy (Op h as) = (if h = ''Tuple'' then as \<noteq> [] else True)"
| "truthy _ = True"

text \<open>
  \<open>set.pop()\<close> removes and returns an arbitrary element and raises \<open>KeyError\<close> on an empty
  set. Which element it is, is not fixed by the language: the model takes it as the
  parameter \<open>choice\<close>, a place in the enumeration of the set.
\<close>

definition pop :: "'a list \<Rightarrow> nat \<Rightarrow> error + 'a" where
  "pop xs choice = (if xs = [] then Inl KeyError else Inr (xs ! (choice mod length xs)))"

text \<open>Line 56: the set of the relations of the accesses of the equation.\<close>

definition extracted_relations :: "equation \<Rightarrow> expr list list" where
  "extracted_relations eq =
     remdups (map (\<lambda>i. map Dim (handle_indexed i)) (retrieve_indexed All False (as_expr eq)))"

text \<open>
  Lines 58 to 63: with a Subdomain Ordering, one relation is popped, the ordering is
  appended to it as one more element, and the reordered tuple becomes the only relation.
\<close>

definition classified_relations :: "nat \<Rightarrow> equation \<Rightarrow> error + expr list list" where
  "classified_relations choice eq =
     (let relations = extracted_relations eq
      in case subdomain_indices eq of
           None \<Rightarrow> Inr relations
         | Some external_relations \<Rightarrow>
             if truthy external_relations then
               (case pop relations choice of
                  Inl e \<Rightarrow> Inl e
                | Inr r \<Rightarrow>
                    (case order_relations (r @ [external_relations]) of
                       Inl e \<Rightarrow> Inl e
                     | Inr ordered \<Rightarrow> Inr [ordered]))
             else Inr relations)"

text \<open>
  Lines 66 to 74: the Dimensions among the free symbols of the equation, and the
  dimensions declared by the functions of all its accesses, sorted by name.
\<close>

definition extra_dimensions :: "equation \<Rightarrow> dimension list" where
  "extra_dimensions eq =
     filter_sorted name
       (remdups (dimensions_in (free_symbols (as_expr eq))
          @ concat (map function_indices (retrieve_indexed Unique True (as_expr eq)))))"

text \<open>Line 82: \<open>(d.parent, d)\<close> for each derived dimension of \<open>extra\<close>.\<close>

definition parent_relations :: "dimension list \<Rightarrow> expr list list" where
  "parent_relations extra =
     concat (map (\<lambda>d. case parent d of None \<Rightarrow> [] | Some p \<Rightarrow> [[Dim p, Dim d]]) extra)"

text \<open>Line 87: \<open>tuple(d.root for d in i)\<close>; only a Dimension has a root.\<close>

fun root_of :: "expr \<Rightarrow> error + expr" where
  "root_of (Dim d) = Inr (Dim (root d))"
| "root_of _ = Inl AttributeError"

fun collect :: "('a \<Rightarrow> error + 'b) \<Rightarrow> 'a list \<Rightarrow> error + 'b list" where
  "collect f [] = Inr []"
| "collect f (x # xs) =
     (case f x of
        Inl e \<Rightarrow> Inl e
      | Inr y \<Rightarrow> (case collect f xs of Inl e \<Rightarrow> Inl e | Inr ys \<Rightarrow> Inr (y # ys)))"

text \<open>Lines 82 to 89: the relations handed to the resolver.\<close>

definition resolver_relations :: "nat \<Rightarrow> equation \<Rightarrow> error + expr list list" where
  "resolver_relations choice eq =
     (case classified_relations choice eq of
        Inl e \<Rightarrow> Inl e
      | Inr relations \<Rightarrow>
          (case collect (collect root_of) relations of
             Inl e \<Rightarrow> Inl e
           | Inr root_relations \<Rightarrow>
               Inr (remdups (relations @ parent_relations (extra_dimensions eq) @ root_relations))))"

definition dimension_sort :: "nat \<Rightarrow> equation \<Rightarrow> error + expr list" where
  "dimension_sort choice eq =
     (case resolver_relations choice eq of
        Inl e \<Rightarrow> Inl e
      | Inr relations \<Rightarrow>
          PartialOrderTuple symbol_name (map Dim (extra_dimensions eq)) relations)"


text \<open>Dimensions used in the examples: three space axes and a time axis.\<close>

abbreviation "xd \<equiv> Dimension ''x'' True None"

abbreviation "yd \<equiv> Dimension ''y'' True None"

abbreviation "zd \<equiv> Dimension ''z'' True None"

abbreviation "td \<equiv> Dimension ''time'' False None"

text \<open>A dimension derived from \<open>x\<close>, for the examples.\<close>

abbreviation "xi \<equiv> Dimension ''xi'' True (Some xd)"

section \<open>Properties of the Stencil\<close>

text \<open>
  C9. For a Stencil \<open>s\<close> and a dimension \<open>d\<close> that is not a key of \<open>s\<close>, the query
  \<open>s.get(d)\<close> returns the singleton set \<open>{0}\<close>.
\<close>

theorem Stencil_get_absent:
  "d \<notin> fst ` set s \<Longrightarrow> Stencil_get s d None = {0}"
proof -
  assume "d \<notin> fst ` set s"
  then have "map_of s d = None"
    by (simp add: map_of_eq_None_iff)
  then show ?thesis
    by (simp add: Stencil_get_def)
qed

theorem Stencil_get_absent_witness:
  "Dimension ''y'' True None \<notin> fst ` set [(Dimension ''x'' True None, {1, 2::int})]
   \<and> Stencil_get [(Dimension ''x'' True None, {1, 2})] (Dimension ''y'' True None) None = {0}"
  using Stencil_get_absent [of "Dimension ''y'' True None" "[(Dimension ''x'' True None, {1, 2})]"]
  by simp

subsection \<open>Entries and keys after a store\<close>

lemma map_of_setitem: "map_of (setitem s k v) = (map_of s)(k \<mapsto> v)"
  by (induction s) (auto simp: fun_eq_iff)

lemma keys_setitem:
  "map fst (setitem s k v) = (if k \<in> set (map fst s) then map fst s else map fst s @ [k])"
  by (induction s) force+

lemma map_of_ior_at:
  "map_of (ior_at s k v) =
     (map_of s)(k \<mapsto> (case map_of s k of None \<Rightarrow> v | Some w \<Rightarrow> w \<union> v))"
  by (auto simp: ior_at_def getitem_def map_of_setitem split: option.splits)

lemma keys_ior_at:
  "map fst (ior_at s k v) = (if k \<in> set (map fst s) then map fst s else map fst s @ [k])"
proof (cases "map_of s k")
  case None
  then have "k \<notin> set (map fst s)"
    by (simp add: map_of_eq_None_iff)
  with None show ?thesis
    by (simp add: ior_at_def getitem_def keys_setitem)
next
  case (Some w)
  then have "k \<in> set (map fst s)"
    by (metis map_of_eq_None_iff option.distinct(1) set_map)
  with Some show ?thesis
    by (simp add: ior_at_def getitem_def keys_setitem)
qed


















subsection \<open>Union\<close>

lemma ior_at_Nil: "ior_at [] k v = [(k, v)]"
  by (simp add: ior_at_def getitem_def)

lemma ior_at_Cons:
  "ior_at ((a, w) # s) k v = (if a = k then (k, w \<union> v) # s else (a, w) # ior_at s k v)"
  by (simp add: ior_at_def getitem_def split: option.splits)

lemma ior_at_twice: "ior_at (ior_at s k w) k v = ior_at s k (w \<union> v)"
  by (induction s) (auto simp: ior_at_Nil ior_at_Cons Un_assoc)

lemma ior_at_commute:
  "k \<in> fst ` set s \<Longrightarrow> ior_at (ior_at s k v) k' v' = ior_at (ior_at s k' v') k v"
proof (induction s)
  case Nil
  then show ?case by simp
next
  case (Cons p s)
  obtain a w where p: "p = (a, w)" by (cases p)
  show ?case
  proof (cases "a = k")
    case True
    then show ?thesis
      by (auto simp: p ior_at_Cons Un_ac)
  next
    case False
    with Cons.prems p have "k \<in> fst ` set s" by auto
    with Cons.IH False show ?thesis
      by (simp add: p ior_at_Cons)
  qed
qed

lemma key_ior_at_same: "k \<in> fst ` set (ior_at s k v)"
  using keys_ior_at [of s k v] by (metis in_set_conv_decomp list.set_map append.right_neutral in_set_conv_decomp_first)

lemma key_ior_at_mono: "k \<in> fst ` set s \<Longrightarrow> k \<in> fst ` set (ior_at s k' v')"
  using keys_ior_at [of s k' v'] by (metis Un_iff list.set_map set_append)

lemma union_items_Nil: "union_items st [] = st"
  by (simp add: union_items_def)

lemma union_items_Cons: "union_items st ((k, v) # i) = union_items (ior_at st k v) i"
  by (simp add: union_items_def)

lemma union_items_append: "union_items st (i @ j) = union_items (union_items st i) j"
  by (simp add: union_items_def)

lemma union_items_ior_at_present:
  "k \<in> fst ` set st \<Longrightarrow> union_items (ior_at st k v) i = ior_at (union_items st i) k v"
proof (induction i arbitrary: st)
  case Nil
  then show ?case by (simp add: union_items_Nil)
next
  case (Cons p i)
  obtain k' v' where p: "p = (k', v')" by (cases p)
  have "union_items (ior_at st k v) (p # i) = union_items (ior_at (ior_at st k v) k' v') i"
    by (simp add: p union_items_Cons)
  also have "\<dots> = union_items (ior_at (ior_at st k' v') k v) i"
    using ior_at_commute [OF Cons.prems, of v k' v'] by simp
  also have "\<dots> = ior_at (union_items (ior_at st k' v') i) k v"
    using Cons.prems by (intro Cons.IH key_ior_at_mono)
  finally show ?case
    by (simp add: p union_items_Cons)
qed

lemma union_items_of_ior_at:
  "union_items st (ior_at t k v) = ior_at (union_items st t) k v"
proof (induction t arbitrary: st)
  case Nil
  then show ?case
    by (simp add: ior_at_Nil union_items_Cons union_items_Nil)
next
  case (Cons p t)
  obtain a w where p: "p = (a, w)" by (cases p)
  show ?case
  proof (cases "a = k")
    case True
    have "ior_at (union_items st (p # t)) k v = ior_at (union_items (ior_at st k w) t) k v"
      by (simp add: p True union_items_Cons)
    also have "\<dots> = union_items (ior_at (ior_at st k w) k v) t"
      by (simp add: union_items_ior_at_present key_ior_at_same)
    also have "\<dots> = union_items (ior_at st k (w \<union> v)) t"
      by (simp add: ior_at_twice)
    finally show ?thesis
      by (simp add: p True ior_at_Cons union_items_Cons)
  next
    case False
    then show ?thesis
      by (simp add: p ior_at_Cons union_items_Cons Cons.IH)
  qed
qed

lemma union_items_normal: "union_items st (union_items [] y) = union_items st y"
proof (induction y rule: rev_induct)
  case Nil
  then show ?case by (simp add: union_items_Nil)
next
  case (snoc p y)
  obtain k v where p: "p = (k, v)" by (cases p)
  have "union_items [] (y @ [p]) = ior_at (union_items [] y) k v"
    by (simp add: p union_items_append union_items_Cons union_items_Nil)
  then have "union_items st (union_items [] (y @ [p])) = ior_at (union_items st (union_items [] y)) k v"
    by (simp add: union_items_of_ior_at)
  also have "\<dots> = ior_at (union_items st y) k v"
    by (simp add: snoc.IH)
  finally show ?case
    by (simp add: p union_items_append union_items_Cons union_items_Nil)
qed

lemma Stencil_union_two: "Stencil_union [a, b] = union_items [] (a @ b)"
  by (simp add: Stencil_union_def union_items_append)

lemma Stencil_union_assoc:
  "Stencil_union [Stencil_union [a, b], c] = Stencil_union [a, Stencil_union [b, c]]"
proof -
  have "Stencil_union [Stencil_union [a, b], c] = union_items [] (union_items [] (a @ b) @ c)"
    by (simp only: Stencil_union_two)
  also have "\<dots> = union_items (union_items [] (union_items [] (a @ b))) c"
    by (rule union_items_append)
  also have "\<dots> = union_items (union_items [] (a @ b)) c"
    by (simp only: union_items_normal)
  also have "\<dots> = union_items [] (a @ b @ c)"
    by (simp only: union_items_append)
  finally have l: "Stencil_union [Stencil_union [a, b], c] = union_items [] (a @ b @ c)" .
  have "Stencil_union [a, Stencil_union [b, c]] = union_items [] (a @ union_items [] (b @ c))"
    by (simp only: Stencil_union_two)
  also have "\<dots> = union_items (union_items [] a) (union_items [] (b @ c))"
    by (rule union_items_append)
  also have "\<dots> = union_items (union_items [] a) (b @ c)"
    by (simp only: union_items_normal)
  also have "\<dots> = union_items [] (a @ b @ c)"
    by (simp only: union_items_append)
  finally show ?thesis
    using l by simp
qed

lemma map_of_union_items:
  "map_of (union_items st i) k =
     (if k \<in> fst ` set i
      then Some ((case map_of st k of None \<Rightarrow> {} | Some w \<Rightarrow> w) \<union> offsets_of i k)
      else map_of st k)"
proof (induction i arbitrary: st)
  case Nil
  then show ?case by (simp add: union_items_Nil)
next
  case (Cons p i)
  obtain a v where p: "p = (a, v)" by (cases p)
  have split: "offsets_of (p # i) k = (if a = k then v \<union> offsets_of i k else offsets_of i k)"
    by (auto simp: offsets_of_def p)
  show ?case
    unfolding p union_items_Cons Cons.IH split [unfolded p]
    by (auto simp: map_of_ior_at offsets_of_def split: option.splits)
qed

lemma offsets_of_append: "offsets_of (a @ b) k = offsets_of a k \<union> offsets_of b k"
  by (auto simp: offsets_of_def)

lemma map_of_Stencil_union_comm:
  "map_of (Stencil_union [a, b]) = map_of (Stencil_union [b, a])"
  by (rule ext) (auto simp: Stencil_union_two map_of_union_items offsets_of_append)

lemma distinct_keys_ior_at:
  "distinct (map fst s) \<Longrightarrow> distinct (map fst (ior_at s k v))"
  by (simp add: keys_ior_at)

lemma distinct_keys_union_items:
  "distinct (map fst st) \<Longrightarrow> distinct (map fst (union_items st i))"
proof (induction i arbitrary: st)
  case Nil
  then show ?case by (simp add: union_items_Nil)
next
  case (Cons p i)
  then show ?case
    by (cases p) (simp add: union_items_Cons distinct_keys_ior_at)
qed

lemma distinct_keys_Stencil_union: "distinct (map fst (Stencil_union [a, b]))"
  by (simp add: Stencil_union_two distinct_keys_union_items)

lemma entries_by_lookup:
  "distinct (map fst s) \<Longrightarrow> set s = {(k, v). map_of s k = Some v}"
  by auto


text \<open>
  C8, as the code has it. The union is associative. It is commutative up to the order of
  the keys: the two results have the same entries and answer every lookup alike, but
  the keys come in the order in which the operands brought them.
\<close>

theorem Stencil_union_assoc_comm_entries:
  "Stencil_union [Stencil_union [a, b], c] = Stencil_union [a, Stencil_union [b, c]]
   \<and> map_of (Stencil_union [a, b]) = map_of (Stencil_union [b, a])
   \<and> set (Stencil_union [a, b]) = set (Stencil_union [b, a])"
proof -
  have "set (Stencil_union [a, b]) = {(k, v). map_of (Stencil_union [a, b]) k = Some v}"
    by (rule entries_by_lookup) (rule distinct_keys_Stencil_union)
  moreover have "set (Stencil_union [b, a]) = {(k, v). map_of (Stencil_union [b, a]) k = Some v}"
    by (rule entries_by_lookup) (rule distinct_keys_Stencil_union)
  ultimately show ?thesis
    using map_of_Stencil_union_comm [of a b] Stencil_union_assoc [of a b c] by simp
qed


text \<open>
  C8 as stated fails: ordered dictionaries with the same entries in another order are
  not equal.
\<close>

theorem Stencil_union_comm_counterexample:
  "Stencil_union [[(Dimension ''x'' True None, {0})], [(Dimension ''y'' True None, {0})]]
   \<noteq> Stencil_union [[(Dimension ''y'' True None, {0})], [(Dimension ''x'' True None, {0})]]"
  by (simp add: Stencil_union_def union_items_def ior_at_def getitem_def)

section \<open>Properties of the classification by a Subdomain Ordering\<close>

lemma order_loop_dims:
  "order_loop (map Dim ds) ns sp =
     Inr (ns @ map Dim (filter (\<lambda>d. \<not> is_Space d) ds), sp @ map Dim (filter is_Space ds))"
  by (induction ds arbitrary: ns sp) simp_all

lemma order_loop_append:
  "order_loop (xs @ ys) ns sp =
     (case order_loop xs ns sp of Inl e \<Rightarrow> Inl e | Inr (ns', sp') \<Rightarrow> order_loop ys ns' sp')"
proof (induction xs arbitrary: ns sp)
  case Nil
  then show ?case by simp
next
  case (Cons i xs)
  show ?case
    by (cases i) (simp_all add: Cons.IH Let_def split: list.splits)
qed

lemma order_loop_no_dimension:
  assumes "args i \<noteq> []" and "dimensions_in (args i) = []"
    and "\<forall>j\<in>set pre. length (dimensions_in (args j)) \<le> 1"
  shows "order_loop (pre @ i # post) ns sp = Inl IndexError"
  using assms(3)
proof (induction pre arbitrary: ns sp)
  case Nil
  from assms(1,2) show ?case
    by (cases i) (simp_all add: Let_def)
next
  case (Cons j pre)
  then have j: "length (dimensions_in (args j)) \<le> 1" and rest: "\<forall>j\<in>set pre. length (dimensions_in (args j)) \<le> 1"
    by simp_all
  show ?case
    using j Cons.IH [OF rest]
    by (cases j) (auto simp: Let_def split: list.splits)
qed

lemma order_loop_fails_iff:
  "isl (order_loop u ns sp) \<longleftrightarrow>
     (\<exists>i\<in>set u. args i \<noteq> [] \<and> length (dimensions_in (args i)) \<noteq> 1)"
proof (induction u arbitrary: ns sp)
  case Nil
  then show ?case by simp
next
  case (Cons i u)
  show ?case
    by (cases i) (auto simp: Let_def Cons.IH split: list.splits)
qed

lemma order_relations_isl: "isl (order_relations u) = isl (order_loop u [] [])"
  by (simp add: order_relations_def split: sum.splits prod.splits)

text \<open>
  C10. If an element of the tuple has arguments and no Dimension among them,
  \<open>order_relations\<close> returns no tuple: it fails. The failure is the \<open>IndexError\<close> of the
  read \<open>dim[0]\<close> on the empty list, and not the \<open>ValueError\<close> for several Dimensions,
  whenever no element before it carries more than one Dimension.
\<close>

theorem order_relations_no_dimension:
  assumes "args i \<noteq> []" and "dimensions_in (args i) = []"
  shows "(\<exists>e. order_relations (pre @ i # post) = Inl e)
     \<and> ((\<forall>j\<in>set pre. length (dimensions_in (args j)) \<le> 1)
          \<longrightarrow> order_relations (pre @ i # post) = Inl IndexError)"
proof
  have "isl (order_loop (pre @ i # post) [] [])"
    using assms by (auto simp: order_loop_fails_iff)
  then have "isl (order_relations (pre @ i # post))"
    by (simp add: order_relations_isl)
  then show "\<exists>e. order_relations (pre @ i # post) = Inl e"
    by (cases "order_relations (pre @ i # post)") simp_all
next
  show "(\<forall>j\<in>set pre. length (dimensions_in (args j)) \<le> 1)
          \<longrightarrow> order_relations (pre @ i # post) = Inl IndexError"
    using assms by (simp add: order_relations_def order_loop_no_dimension)
qed

theorem order_relations_no_dimension_witness:
  "args (Op ''Tuple'' [Integer 1]) \<noteq> []
   \<and> dimensions_in (args (Op ''Tuple'' [Integer 1])) = []
   \<and> length (dimensions_in (args (Dim td))) \<le> 1
   \<and> (\<exists>e. order_relations ([Dim td] @ Op ''Tuple'' [Integer 1] # [Dim xd]) = Inl e)
   \<and> order_relations ([Dim td] @ Op ''Tuple'' [Integer 1] # [Dim xd]) = Inl IndexError"
  using order_relations_no_dimension [of "Op ''Tuple'' [Integer 1]" "[Dim td]" "[Dim xd]"]
  by simp

lemma order_relations_with_ordering:
  "order_relations (map Dim ds @ [S]) =
     (let ns = map Dim (filter (\<lambda>d. \<not> is_Space d) ds); sp = map Dim (filter is_Space ds)
      in if args S \<noteq> [] then
           (if length (dimensions_in (args S)) > 1 then Inl ValueError
            else case dimensions_in (args S) of
                   [] \<Rightarrow> Inl IndexError
                 | s # _ \<Rightarrow> if is_Space s then Inr (ns @ sp @ [S]) else Inr (ns @ [S] @ sp))
         else (case S of
                 Dim s \<Rightarrow> if is_Space s then Inr (ns @ sp @ [S]) else Inr (ns @ [S] @ sp)
               | _ \<Rightarrow> Inr (ns @ sp)))"
  by (cases S) (simp_all add: order_relations_def order_loop_append order_loop_dims Let_def split: list.splits)

lemma extracted_relations_dims:
  "r \<in> set (extracted_relations eq) \<Longrightarrow> \<exists>ds. r = map Dim ds"
  by (auto simp: extracted_relations_def)

lemma pop_member: "xs \<noteq> [] \<Longrightarrow> \<exists>x\<in>set xs. pop xs choice = Inr x"
  by (simp add: pop_def)

lemma pop_empty: "pop [] choice = Inl KeyError"
  by (simp add: pop_def)

lemma classified_relations_with_ordering:
  assumes "subdomain_indices eq = Some S" and "truthy S" and "extracted_relations eq \<noteq> []"
  shows "\<exists>ds. map Dim ds \<in> set (extracted_relations eq) \<and>
     classified_relations choice eq =
       (case order_relations (map Dim ds @ [S]) of Inl e \<Rightarrow> Inl e | Inr ordered \<Rightarrow> Inr [ordered])"
proof -
  from pop_member [OF assms(3)] obtain r where r: "r \<in> set (extracted_relations eq)"
    and p: "pop (extracted_relations eq) choice = Inr r"
    by blast
  from extracted_relations_dims [OF r] obtain ds where ds: "r = map Dim ds"
    by blast
  show ?thesis
    using assms(1,2) p r ds by (auto simp: classified_relations_def Let_def)
qed

text \<open>
  C5, as the code has it. With a Subdomain Ordering \<open>S\<close>, the classification raises the
  \<open>ValueError\<close> for several Dimensions exactly when there is an extracted relation to
  pop and \<open>S\<close> carries more than one Dimension among its arguments; how many distinct
  relations were extracted plays no part. It raises \<open>IndexError\<close> exactly when \<open>S\<close> has
  arguments and no Dimension among them, \<open>KeyError\<close> exactly when there is no relation
  to pop, and no error in the remaining cases.
\<close>

theorem classified_relations_errors:
  assumes "subdomain_indices eq = Some S" and "truthy S"
  shows "(classified_relations choice eq = Inl ValueError
            \<longleftrightarrow> extracted_relations eq \<noteq> [] \<and> length (dimensions_in (args S)) > 1)
       \<and> (classified_relations choice eq = Inl IndexError
            \<longleftrightarrow> extracted_relations eq \<noteq> [] \<and> args S \<noteq> [] \<and> dimensions_in (args S) = [])
       \<and> (classified_relations choice eq = Inl KeyError \<longleftrightarrow> extracted_relations eq = [])
       \<and> ((\<exists>rs. classified_relations choice eq = Inr rs)
            \<longleftrightarrow> extracted_relations eq \<noteq> [] \<and> (args S = [] \<or> length (dimensions_in (args S)) = 1))"
proof (cases "extracted_relations eq = []")
  case True
  then have "classified_relations choice eq = Inl KeyError"
    using assms by (simp add: classified_relations_def pop_empty)
  with True show ?thesis by simp
next
  case False
  from classified_relations_with_ordering [OF assms False, of choice]
  obtain ds where c: "classified_relations choice eq =
       (case order_relations (map Dim ds @ [S]) of Inl e \<Rightarrow> Inl e | Inr ordered \<Rightarrow> Inr [ordered])"
    by blast
  have noargs: "args S = [] \<Longrightarrow> dimensions_in (args S) = []"
    by simp
  show ?thesis
    unfolding c order_relations_with_ordering using False
    by (cases S) (auto simp: Let_def split: list.splits)
qed

theorem classified_relations_errors_witness:
  "subdomain_indices \<lparr>lhs = Indexed ''u'' [td, xd] [Dim td, Dim xd], rhs = Integer 0,
        subdomain_indices = Some (Op ''Tuple'' [Dim xd, Dim yd])\<rparr> = Some (Op ''Tuple'' [Dim xd, Dim yd])
   \<and> truthy (Op ''Tuple'' [Dim xd, Dim yd])
   \<and> extracted_relations \<lparr>lhs = Indexed ''u'' [td, xd] [Dim td, Dim xd], rhs = Integer 0,
        subdomain_indices = Some (Op ''Tuple'' [Dim xd, Dim yd])\<rparr> \<noteq> []
   \<and> length (dimensions_in (args (Op ''Tuple'' [Dim xd, Dim yd]))) > 1
   \<and> classified_relations 0 \<lparr>lhs = Indexed ''u'' [td, xd] [Dim td, Dim xd], rhs = Integer 0,
        subdomain_indices = Some (Op ''Tuple'' [Dim xd, Dim yd])\<rparr> = Inl ValueError"
proof -
  have r: "extracted_relations \<lparr>lhs = Indexed ''u'' [td, xd] [Dim td, Dim xd], rhs = Integer 0,
        subdomain_indices = Some (Op ''Tuple'' [Dim xd, Dim yd])\<rparr> \<noteq> []"
    by code_simp
  have s: "subdomain_indices \<lparr>lhs = Indexed ''u'' [td, xd] [Dim td, Dim xd], rhs = Integer 0,
        subdomain_indices = Some (Op ''Tuple'' [Dim xd, Dim yd])\<rparr> = Some (Op ''Tuple'' [Dim xd, Dim yd])"
    by simp
  have t: "truthy (Op ''Tuple'' [Dim xd, Dim yd])"
    by simp
  show ?thesis
    using classified_relations_errors [OF s t, of 0] r by simp
qed

text \<open>
  C5 as stated fails: two distinct relations survive deduplication, and whichever of
  them is popped, the classification returns a tuple and raises nothing.
\<close>

theorem classified_relations_errors_counterexample:
  "extracted_relations \<lparr>lhs = Indexed ''a'' [yd] [Dim yd], rhs = Indexed ''b'' [zd, xd] [Dim zd, Dim xd],
        subdomain_indices = Some (Op ''Tuple'' [Dim xd])\<rparr> = [[Dim yd], [Dim zd, Dim xd]]
   \<and> classified_relations 0 \<lparr>lhs = Indexed ''a'' [yd] [Dim yd], rhs = Indexed ''b'' [zd, xd] [Dim zd, Dim xd],
        subdomain_indices = Some (Op ''Tuple'' [Dim xd])\<rparr> = Inr [[Dim yd, Op ''Tuple'' [Dim xd]]]
   \<and> classified_relations 1 \<lparr>lhs = Indexed ''a'' [yd] [Dim yd], rhs = Indexed ''b'' [zd, xd] [Dim zd, Dim xd],
        subdomain_indices = Some (Op ''Tuple'' [Dim xd])\<rparr> = Inr [[Dim zd, Dim xd, Op ''Tuple'' [Dim xd]]]"
  by code_simp

text \<open>
  C1, as the code has it. With a single extracted relation and a Subdomain Ordering \<open>S\<close>
  that carries one Dimension \<open>s\<close>, the combined relation is: the non-space dimensions of
  the extraction in their order, then the space dimensions of the extraction in their
  order, with \<open>S\<close>, kept as one element, last in the class of \<open>s\<close>: after the space
  dimensions if \<open>s\<close> is a space dimension, between the two groups otherwise.
\<close>

theorem classified_relations_single:
  assumes "subdomain_indices eq = Some S" and "truthy S"
    and "extracted_relations eq = [map Dim ds]"
    and "dimensions_in (args S) = [s] \<or> S = Dim s"
  shows "classified_relations choice eq =
     Inr [map Dim (filter (\<lambda>d. \<not> is_Space d) ds)
          @ (if is_Space s then map Dim (filter is_Space ds) @ [S]
             else S # map Dim (filter is_Space ds))]"
proof -
  have p: "pop (extracted_relations eq) choice = Inr (map Dim ds)"
    by (simp add: assms(3) pop_def)
  have c: "classified_relations choice eq =
       (case order_relations (map Dim ds @ [S]) of Inl e \<Rightarrow> Inl e | Inr ordered \<Rightarrow> Inr [ordered])"
    using assms(1,2) p by (simp add: classified_relations_def Let_def)
  from assms(4) show ?thesis
  proof
    assume d: "dimensions_in (args S) = [s]"
    then have "args S \<noteq> []"
      by auto
    with d show ?thesis
      unfolding c order_relations_with_ordering by (simp add: Let_def)
  next
    assume "S = Dim s"
    then show ?thesis
      unfolding c order_relations_with_ordering by (simp add: Let_def)
  qed
qed

theorem classified_relations_single_witness:
  "subdomain_indices \<lparr>lhs = Indexed ''u'' [td, xd] [Dim td, Dim xd], rhs = Integer 0,
        subdomain_indices = Some (Op ''Tuple'' [Dim xd])\<rparr> = Some (Op ''Tuple'' [Dim xd])
   \<and> truthy (Op ''Tuple'' [Dim xd])
   \<and> extracted_relations \<lparr>lhs = Indexed ''u'' [td, xd] [Dim td, Dim xd], rhs = Integer 0,
        subdomain_indices = Some (Op ''Tuple'' [Dim xd])\<rparr> = [map Dim [td, xd]]
   \<and> dimensions_in (args (Op ''Tuple'' [Dim xd])) = [xd]
   \<and> classified_relations 0 \<lparr>lhs = Indexed ''u'' [td, xd] [Dim td, Dim xd], rhs = Integer 0,
        subdomain_indices = Some (Op ''Tuple'' [Dim xd])\<rparr>
       = Inr [[Dim td, Dim xd, Op ''Tuple'' [Dim xd]]]"
proof -
  have r: "extracted_relations \<lparr>lhs = Indexed ''u'' [td, xd] [Dim td, Dim xd], rhs = Integer 0,
        subdomain_indices = Some (Op ''Tuple'' [Dim xd])\<rparr> = [map Dim [td, xd]]"
    by code_simp
  have d: "dimensions_in (args (Op ''Tuple'' [Dim xd])) = [xd] \<or> Op ''Tuple'' [Dim xd] = Dim xd"
    by simp
  have s: "subdomain_indices \<lparr>lhs = Indexed ''u'' [td, xd] [Dim td, Dim xd], rhs = Integer 0,
        subdomain_indices = Some (Op ''Tuple'' [Dim xd])\<rparr> = Some (Op ''Tuple'' [Dim xd])"
    by simp
  have t: "truthy (Op ''Tuple'' [Dim xd])"
    by simp
  show ?thesis
    using classified_relations_single [OF s t r d, of 0] r by simp
qed

text \<open>
  C1 as stated fails: with the extraction \<open>(time, y)\<close> and \<open>S = (x,)\<close> the combined
  relation is \<open>(time, y, S)\<close>, not \<open>(time, S, y)\<close>.
\<close>

theorem classified_relations_single_counterexample:
  "extracted_relations \<lparr>lhs = Indexed ''u'' [td, yd] [Dim td, Dim yd], rhs = Integer 0,
        subdomain_indices = Some (Op ''Tuple'' [Dim xd])\<rparr> = [[Dim td, Dim yd]]
   \<and> classified_relations 0 \<lparr>lhs = Indexed ''u'' [td, yd] [Dim td, Dim yd], rhs = Integer 0,
        subdomain_indices = Some (Op ''Tuple'' [Dim xd])\<rparr>
       = Inr [[Dim td, Dim yd, Op ''Tuple'' [Dim xd]]]
   \<and> classified_relations 0 \<lparr>lhs = Indexed ''u'' [td, yd] [Dim td, Dim yd], rhs = Integer 0,
        subdomain_indices = Some (Op ''Tuple'' [Dim xd])\<rparr>
       \<noteq> Inr [[Dim td, Op ''Tuple'' [Dim xd], Dim yd]]"
  by code_simp

section \<open>Properties of the relation extractor\<close>

lemma handle_indexed_one:
  "handle_indexed (Indexed f ds [i]) =
     (case split_affine i of
        Some (maybe_dim, off) \<Rightarrow> (case maybe_dim of Dim d \<Rightarrow> [d] | _ \<Rightarrow> [])
      | None \<Rightarrow>
          (if nested_relations i \<noteq> [] then nested_relations i
           else dimensions_in (filter_sorted symbol_name (free_symbols i))))"
  by (subst handle_indexed.simps) (simp add: Let_def split: option.splits)

lemma handle_indexed_append:
  "handle_indexed (Indexed f ds (pre @ post)) =
     handle_indexed (Indexed f ds pre) @ handle_indexed (Indexed f ds post)"
  by (subst (1 2 3) handle_indexed.simps) simp

lemma handle_indexed_split:
  "handle_indexed (Indexed f ds (pre @ i # post)) =
     handle_indexed (Indexed f ds pre) @ handle_indexed (Indexed f ds [i])
       @ handle_indexed (Indexed f ds post)"
  using handle_indexed_append [of f ds pre "[i] @ post"] handle_indexed_append [of f ds "[i]" post]
  by simp

lemma set_dimensions_in: "set (dimensions_in xs) = {d. Dim d \<in> set xs}"
  by (induction xs rule: dimensions_in.induct) auto

lemma sorted_dimensions_in:
  "sorted (map symbol_name xs) \<Longrightarrow> sorted (map name (dimensions_in xs))"
proof (induction xs rule: dimensions_in.induct)
  case (2 d xs)
  then have "\<forall>e\<in>set xs. name d \<le> symbol_name e"
    by auto
  then have "\<forall>d'\<in>set (dimensions_in xs). name d \<le> name d'"
    by (auto simp: set_dimensions_in)
  with 2 show ?case by simp
qed simp_all

lemma fallback_sorted:
  "sorted (map name (dimensions_in (filter_sorted symbol_name (free_symbols i))))"
  by (simp add: filter_sorted_def sorted_dimensions_in)

lemma fallback_complete:
  "set (dimensions_in (filter_sorted symbol_name (free_symbols i))) = {d. Dim d \<in> set (free_symbols i)}"
  by (simp add: filter_sorted_def set_dimensions_in)

text \<open>
  C6, as the code has it. The relation of an access is built index expression by index
  expression, in order. An index expression that decomposes into one Dimension and an
  offset contributes that Dimension. One that does not decompose contributes the
  flattened relations of the accesses found inside it when these hold any Dimension;
  when they hold none (in particular when there is no access inside it) it contributes
  all the Dimensions among its free symbols, sorted by name.
\<close>

theorem handle_indexed_index:
  "(split_affine i = Some (Dim d, k) \<longrightarrow>
      handle_indexed (Indexed f ds (pre @ i # post)) =
        handle_indexed (Indexed f ds pre) @ [d] @ handle_indexed (Indexed f ds post))
   \<and> (split_affine i = None \<and> nested_relations i \<noteq> [] \<longrightarrow>
      handle_indexed (Indexed f ds (pre @ i # post)) =
        handle_indexed (Indexed f ds pre) @ nested_relations i @ handle_indexed (Indexed f ds post))
   \<and> (split_affine i = None \<and> nested_relations i = [] \<longrightarrow>
      handle_indexed (Indexed f ds (pre @ i # post)) =
        handle_indexed (Indexed f ds pre)
          @ dimensions_in (filter_sorted symbol_name (free_symbols i))
          @ handle_indexed (Indexed f ds post)
      \<and> sorted (map name (dimensions_in (filter_sorted symbol_name (free_symbols i))))
      \<and> set (dimensions_in (filter_sorted symbol_name (free_symbols i)))
          = {d. Dim d \<in> set (free_symbols i)})"
  by (simp add: handle_indexed_split [of f ds pre i post] handle_indexed_one
      fallback_sorted fallback_complete)

lemma no_nested_access:
  "retrieve_indexed Unique False i = [] \<Longrightarrow> nested_relations i = []"
  by simp

theorem handle_indexed_index_witness:
  "split_affine (Op ''Add'' [Integer 1, Dim xd]) = Some (Dim xd, 1)
   \<and> handle_indexed (Indexed ''f'' [yd, xd] ([Dim yd] @ Op ''Add'' [Integer 1, Dim xd] # []))
       = handle_indexed (Indexed ''f'' [yd, xd] [Dim yd]) @ [xd] @ handle_indexed (Indexed ''f'' [yd, xd] [])
   \<and> split_affine (Indexed ''g'' [xd] [Dim xd]) = None
   \<and> nested_relations (Indexed ''g'' [xd] [Dim xd]) = [xd]
   \<and> handle_indexed (Indexed ''f'' [yd, xd] ([Dim yd] @ Indexed ''g'' [xd] [Dim xd] # []))
       = handle_indexed (Indexed ''f'' [yd, xd] [Dim yd]) @ [xd] @ handle_indexed (Indexed ''f'' [yd, xd] [])
   \<and> split_affine (Op ''Mul'' [Dim zd, Dim xd]) = None
   \<and> nested_relations (Op ''Mul'' [Dim zd, Dim xd]) = []
   \<and> handle_indexed (Indexed ''f'' [yd, xd] ([Dim yd] @ Op ''Mul'' [Dim zd, Dim xd] # []))
       = handle_indexed (Indexed ''f'' [yd, xd] [Dim yd]) @ [xd, zd] @ handle_indexed (Indexed ''f'' [yd, xd] [])"
proof -
  have a: "split_affine (Op ''Add'' [Integer 1, Dim xd]) = Some (Dim xd, 1)"
    by simp
  have b: "split_affine (Indexed ''g'' [xd] [Dim xd]) = None"
    by simp
  have b': "nested_relations (Indexed ''g'' [xd] [Dim xd]) = [xd]"
    by code_simp
  have c: "split_affine (Op ''Mul'' [Dim zd, Dim xd]) = None"
    by simp
  have c': "nested_relations (Op ''Mul'' [Dim zd, Dim xd]) = []"
    by code_simp
  have c'': "dimensions_in (filter_sorted symbol_name (free_symbols (Op ''Mul'' [Dim zd, Dim xd]))) = [xd, zd]"
    by code_simp
  show ?thesis
    using handle_indexed_index [of "Op ''Add'' [Integer 1, Dim xd]" xd 1 "''f''" "[yd, xd]" "[Dim yd]" "[]"]
      handle_indexed_index [of "Indexed ''g'' [xd] [Dim xd]" xd 1 "''f''" "[yd, xd]" "[Dim yd]" "[]"]
      handle_indexed_index [of "Op ''Mul'' [Dim zd, Dim xd]" xd 1 "''f''" "[yd, xd]" "[Dim yd]" "[]"]
      a b b' c c' c''
    by simp
qed

text \<open>
  C6 as stated fails: the index expression \<open>g[3]*x\<close> does not decompose and has a nested
  access, whose relation is empty; the relation of \<open>f[g[3]*x]\<close> is then not empty but
  \<open>(x,)\<close>, from the free symbols.
\<close>

theorem handle_indexed_index_counterexample:
  "split_affine (Op ''Mul'' [Indexed ''g'' [xd] [Integer 3], Dim xd]) = None
   \<and> retrieve_indexed Unique False (Op ''Mul'' [Indexed ''g'' [xd] [Integer 3], Dim xd])
       = [Indexed ''g'' [xd] [Integer 3]]
   \<and> handle_indexed (Indexed ''g'' [xd] [Integer 3]) = []
   \<and> handle_indexed (Indexed ''f'' [xd] [Op ''Mul'' [Indexed ''g'' [xd] [Integer 3], Dim xd]]) = [xd]"
  by code_simp

section \<open>Properties of the implicit relations\<close>

lemma split_affine_symbol:
  "split_affine i = Some (v, k) \<Longrightarrow> v \<in> set (symbols_of i)"
  by (induction i rule: split_affine.induct) (auto split: if_splits)

lemma search_indexed_symbols:
  "n \<in> set (search_indexed deep e) \<Longrightarrow> set (symbols_of n) \<subseteq> set (symbols_of e)"
proof (induction deep e rule: search_indexed.induct)
  case (1 deep f ds idx)
  then show ?case
    by (fastforce split: if_splits)
next
  case (2 deep h as)
  then show ?case
    by fastforce
qed simp_all

lemma retrieve_indexed_symbols:
  "n \<in> set (retrieve_indexed m deep e) \<Longrightarrow> set (symbols_of n) \<subseteq> set (symbols_of e)"
  by (cases m) (auto simp: retrieve_indexed_def dest: search_indexed_symbols)

lemma indices_symbols:
  "i \<in> set (indices a) \<Longrightarrow> set (symbols_of i) \<subseteq> set (symbols_of a)"
  by (cases a) auto

lemma handle_indexed_symbols:
  "d \<in> set (handle_indexed a) \<Longrightarrow> Dim d \<in> set (symbols_of a)"
proof (induction a arbitrary: d rule: handle_indexed.induct)
  case (1 indexed)
  from "1.prems" obtain i where i: "i \<in> set (indices indexed)"
    and d: "d \<in> set (case split_affine i of
          Some (maybe_dim, off) \<Rightarrow> (case maybe_dim of Dim d \<Rightarrow> [d] | _ \<Rightarrow> [])
        | None \<Rightarrow>
            (let nested = nested_relations i
             in if nested \<noteq> [] then nested
                else dimensions_in (filter_sorted symbol_name (free_symbols i))))"
    by (subst (asm) handle_indexed.simps) auto
  have "Dim d \<in> set (symbols_of i)"
  proof (cases "split_affine i")
    case None
    show ?thesis
    proof (cases "nested_relations i = []")
      case True
      with None d have "d \<in> set (dimensions_in (filter_sorted symbol_name (free_symbols i)))"
        by simp
      then show ?thesis
        by (simp add: set_dimensions_in filter_sorted_def free_symbols_def)
    next
      case False
      with None d obtain n where n: "n \<in> set (retrieve_indexed Unique False i)"
        and dn: "d \<in> set (handle_indexed n)"
        by auto
      from "1.IH" [OF i None n dn] have "Dim d \<in> set (symbols_of n)" .
      with retrieve_indexed_symbols [OF n] show ?thesis
        by blast
    qed
  next
    case (Some p)
    obtain v k where p: "p = (v, k)" by (cases p)
    with Some d have "v = Dim d"
      by (cases v) simp_all
    with Some p split_affine_symbol [of i v k] show ?thesis
      by simp
  qed
  with indices_symbols [OF i] show ?case
    by blast
qed

lemma extracted_in_extra:
  assumes "r \<in> set (extracted_relations eq)" and "Dim d \<in> set r"
  shows "d \<in> set (extra_dimensions eq)"
proof -
  from assms(1) obtain a where a: "a \<in> set (retrieve_indexed All False (as_expr eq))"
    and r: "r = map Dim (handle_indexed a)"
    by (auto simp: extracted_relations_def)
  from assms(2) r have "d \<in> set (handle_indexed a)"
    by auto
  then have "Dim d \<in> set (symbols_of a)"
    by (rule handle_indexed_symbols)
  with retrieve_indexed_symbols [OF a] have "Dim d \<in> set (symbols_of (as_expr eq))"
    by blast
  then show ?thesis
    by (simp add: extra_dimensions_def filter_sorted_def free_symbols_def set_dimensions_in)
qed

lemma parent_relations_member:
  "d \<in> set extra \<Longrightarrow> parent d = Some p \<Longrightarrow> [Dim p, Dim d] \<in> set (parent_relations extra)"
  by (force simp: parent_relations_def)

lemma resolver_relations_set:
  assumes "resolver_relations choice eq = Inr rels"
  shows "set (parent_relations (extra_dimensions eq)) \<subseteq> set rels"
  using assms by (auto simp: resolver_relations_def split: sum.splits)

text \<open>
  C4. Whenever \<open>dimension_sort\<close> reaches the resolver, the relations it hands over
  contain \<open>(d.parent, d)\<close> for every derived dimension \<open>d\<close> that is in \<open>extra\<close> or occurs in
  an extracted relation: the dimensions of the extracted relations are free symbols of
  the equation and so belong to \<open>extra\<close>.
\<close>

theorem parent_relation_added:
  assumes "resolver_relations choice eq = Inr rels"
    and "is_Derived d"
    and "d \<in> set (extra_dimensions eq) \<or> (\<exists>r\<in>set (extracted_relations eq). Dim d \<in> set r)"
  shows "[Dim (the (parent d)), Dim d] \<in> set rels"
proof -
  from assms(3) have "d \<in> set (extra_dimensions eq)"
    by (auto dest: extracted_in_extra)
  moreover from assms(2) obtain p where "parent d = Some p"
    by (auto simp: is_Derived_def)
  ultimately have "[Dim (the (parent d)), Dim d] \<in> set (parent_relations (extra_dimensions eq))"
    by (simp add: parent_relations_member)
  with resolver_relations_set [OF assms(1)] show ?thesis
    by blast
qed

theorem parent_relation_added_witness:
  "resolver_relations 0 \<lparr>lhs = Indexed ''u'' [td, xi] [Dim td, Dim xi],
        rhs = Indexed ''v'' [xd] [Dim xd], subdomain_indices = None\<rparr>
     = Inr [[Dim td, Dim xi], [Dim xd, Dim xi], [Dim td, Dim xd], [Dim xd]]
   \<and> is_Derived xi
   \<and> xi \<in> set (extra_dimensions \<lparr>lhs = Indexed ''u'' [td, xi] [Dim td, Dim xi],
        rhs = Indexed ''v'' [xd] [Dim xd], subdomain_indices = None\<rparr>)
   \<and> [Dim (the (parent xi)), Dim xi]
       \<in> set [[Dim td, Dim xi], [Dim xd, Dim xi], [Dim td, Dim xd], [Dim xd]]"
proof -
  have r: "resolver_relations 0 \<lparr>lhs = Indexed ''u'' [td, xi] [Dim td, Dim xi],
        rhs = Indexed ''v'' [xd] [Dim xd], subdomain_indices = None\<rparr>
     = Inr [[Dim td, Dim xi], [Dim xd, Dim xi], [Dim td, Dim xd], [Dim xd]]"
    by code_simp
  have e: "xi \<in> set (extra_dimensions \<lparr>lhs = Indexed ''u'' [td, xi] [Dim td, Dim xi],
        rhs = Indexed ''v'' [xd] [Dim xd], subdomain_indices = None\<rparr>)"
    by code_simp
  have d: "is_Derived xi"
    by (simp add: is_Derived_def)
  show ?thesis
    using parent_relation_added [OF r d disjI1 [OF e]] r e d by simp
qed

section \<open>Properties of the resolver and of the sort\<close>

lemma position_Cons: "position (x # xs) a = (if x = a then 0 else Suc (position xs a))"
  by (simp add: position_def)

lemma before_Cons_head: "b \<in> set xs \<Longrightarrow> b \<noteq> v \<Longrightarrow> before (v # xs) v b"
  by (simp add: before_def position_Cons)

lemma before_Cons_tail: "before xs a b \<Longrightarrow> a \<noteq> v \<Longrightarrow> b \<noteq> v \<Longrightarrow> before (v # xs) a b"
  by (simp add: before_def position_Cons)

lemma before_trans: "before xs a b \<Longrightarrow> before xs b c \<Longrightarrow> before xs a c"
  by (auto simp: before_def)

lemma before_position: "before xs a b \<Longrightarrow> position xs a \<le> position xs b"
  by (simp add: before_def)

lemma position_inject:
  "a \<in> set xs \<Longrightarrow> b \<in> set xs \<Longrightarrow> position xs a = position xs b \<Longrightarrow> a = b"
proof (induction xs)
  case Nil
  then show ?case by simp
next
  case (Cons x xs)
  then show ?case
    by (auto simp: position_Cons split: if_splits)
qed

lemma ready_edge:
  "ready es vs v \<Longrightarrow> (a, b) \<in> set es \<Longrightarrow> a \<in> set vs \<Longrightarrow> a \<noteq> b \<Longrightarrow> b \<noteq> v"
  by (auto simp: ready_def list_ex_iff)

lemma toposort_set:
  "toposort es vs = Inr out \<Longrightarrow> set out = set vs"
proof (induction es vs arbitrary: out rule: toposort.induct)
  case (1 es vs)
  show ?case
  proof (cases "vs = []")
    case True
    with "1.prems" show ?thesis
      by (subst (asm) toposort.simps) simp
  next
    case False
    from "1.prems" False obtain v out' where f: "find (ready es vs) vs = Some v"
      and rec: "toposort es (removeAll v vs) = Inr out'" and out: "out = v # out'"
      by (subst (asm) toposort.simps) (auto split: option.splits sum.splits)
    from f have v: "v \<in> set vs"
      by (auto simp: find_Some_iff)
    from "1.IH" [OF False f rec] have "set out' = set (removeAll v vs)" .
    with v out show ?thesis
      by auto
  qed
qed

lemma toposort_before:
  "toposort es vs = Inr out \<Longrightarrow> (a, b) \<in> set es \<Longrightarrow> a \<in> set vs \<Longrightarrow> b \<in> set vs
     \<Longrightarrow> a \<noteq> b \<Longrightarrow> before out a b"
proof (induction es vs arbitrary: out rule: toposort.induct)
  case (1 es vs)
  from "1.prems"(3) have ne: "vs \<noteq> []"
    by auto
  from "1.prems"(1) ne obtain v out' where f: "find (ready es vs) vs = Some v"
    and rec: "toposort es (removeAll v vs) = Inr out'" and out: "out = v # out'"
    by (subst (asm) toposort.simps) (auto split: option.splits sum.splits)
  from f have r: "ready es vs v"
    by (auto simp: find_Some_iff)
  from ready_edge [OF r "1.prems"(2,3,5)] have bv: "b \<noteq> v" .
  have so: "set out' = set (removeAll v vs)"
    using rec by (rule toposort_set)
  show ?case
  proof (cases "a = v")
    case True
    from bv "1.prems"(4) so have "b \<in> set out'"
      by simp
    with True bv out show ?thesis
      by (simp add: before_Cons_head)
  next
    case False
    with "1.prems"(3,4) bv have "a \<in> set (removeAll v vs)" and "b \<in> set (removeAll v vs)"
      by simp_all
    from "1.IH" [OF ne f rec "1.prems"(2) this "1.prems"(5)] have "before out' a b" .
    with False bv out show ?thesis
      by (simp add: before_Cons_tail)
  qed
qed

lemma consecutive_edge:
  "Suc i < length r \<Longrightarrow> (r ! i, r ! Suc i) \<in> set (zip r (tl r))"
proof -
  assume a: "Suc i < length r"
  then have "i < length (zip r (tl r))"
    by simp
  then have "zip r (tl r) ! i \<in> set (zip r (tl r))"
    by (rule nth_mem)
  with a show ?thesis
    by (simp add: nth_tl)
qed

lemma relation_edge:
  "r \<in> set relations \<Longrightarrow> Suc i < length r \<Longrightarrow> (r ! i, r ! Suc i) \<in> set (edges_of relations)"
  by (auto simp: edges_of_def dest: consecutive_edge)

lemma chain_position:
  assumes step: "\<And>k. Suc k < length r \<Longrightarrow> position out (r ! k) \<le> position out (r ! Suc k)"
  shows "i \<le> j \<Longrightarrow> j < length r \<Longrightarrow> position out (r ! i) \<le> position out (r ! j)"
proof (induction j)
  case 0
  then show ?case by simp
next
  case (Suc j)
  show ?case
  proof (cases "i = Suc j")
    case True
    then show ?thesis by simp
  next
    case False
    with Suc.prems have "i \<le> j" and "j < length r"
      by simp_all
    then have "position out (r ! i) \<le> position out (r ! j)"
      by (rule Suc.IH)
    moreover have "position out (r ! j) \<le> position out (r ! Suc j)"
      using Suc.prems step by simp
    ultimately show ?thesis
      by simp
  qed
qed

lemma PartialOrderTuple_set:
  assumes "PartialOrderTuple key items relations = Inr out" and "r \<in> set relations"
  shows "set r \<subseteq> set out"
proof -
  let ?vs = "items @ sort_key key (remdups (filter (\<lambda>v. v \<notin> set items) (concat relations)))"
  have "toposort (edges_of relations) ?vs = Inr out"
    using assms(1) by (simp add: PartialOrderTuple_def)
  then have "set out = set ?vs"
    by (rule toposort_set)
  moreover have "set r \<subseteq> set ?vs"
    using assms(2) by auto
  ultimately show ?thesis
    by simp
qed

lemma PartialOrderTuple_before:
  assumes "PartialOrderTuple key items relations = Inr out"
    and "r \<in> set relations" and "i < j" and "j < length r" and "r ! i \<noteq> r ! j"
  shows "before out (r ! i) (r ! j)"
proof -
  let ?vs = "items @ sort_key key (remdups (filter (\<lambda>v. v \<notin> set items) (concat relations)))"
  have t: "toposort (edges_of relations) ?vs = Inr out"
    using assms(1) by (simp add: PartialOrderTuple_def)
  have mem: "k < length r \<Longrightarrow> r ! k \<in> set ?vs" for k
    using assms(2) by (auto intro: nth_mem)
  have step: "position out (r ! k) \<le> position out (r ! Suc k)" if s: "Suc k < length r" for k
  proof (cases "r ! k = r ! Suc k")
    case True
    then show ?thesis by simp
  next
    case False
    from s have "k < length r"
      by simp
    then have m1: "r ! k \<in> set ?vs"
      by (rule mem)
    have m2: "r ! Suc k \<in> set ?vs"
      using s by (rule mem)
    have "before out (r ! k) (r ! Suc k)"
      using t relation_edge [OF assms(2) s] m1 m2 False by (rule toposort_before)
    then show ?thesis
      by (rule before_position)
  qed
  from assms(3) have "i \<le> j"
    by simp
  with step have le: "position out (r ! i) \<le> position out (r ! j)"
    using assms(4) by (rule chain_position)
  from assms(3,4) have "r ! i \<in> set r" and "r ! j \<in> set r"
    by simp_all
  with PartialOrderTuple_set [OF assms(1,2)] have mi: "r ! i \<in> set out" and mj: "r ! j \<in> set out"
    by blast+
  from position_inject [OF mi mj] assms(5) have "position out (r ! i) \<noteq> position out (r ! j)"
    by blast
  with le mi mj show ?thesis
    by (simp add: before_def)
qed

text \<open>
  C2, as the code has it. For an equation without a Subdomain Ordering, whenever
  \<open>dimension_sort\<close> returns a sequence, each relation \<open>(d1, ..., dn)\<close> extracted from an
  access of the equation is respected: the sequence places an earlier member of the
  relation before every later member that is another dimension. (A dimension that
  occurs twice in a relation has one place in the sequence.)
\<close>

theorem dimension_sort_respects_relations:
  assumes "dimension_sort choice eq = Inr out"
    and "\<not> (\<exists>S. subdomain_indices eq = Some S \<and> truthy S)"
    and "r \<in> set (extracted_relations eq)" and "i < j" and "j < length r"
    and "r ! i \<noteq> r ! j"
  shows "before out (r ! i) (r ! j)"
proof -
  from assms(2) have c: "classified_relations choice eq = Inr (extracted_relations eq)"
    by (auto simp: classified_relations_def Let_def split: option.splits)
  from assms(1) obtain rels where rr: "resolver_relations choice eq = Inr rels"
    and p: "PartialOrderTuple symbol_name (map Dim (extra_dimensions eq)) rels = Inr out"
    by (auto simp: dimension_sort_def split: sum.splits)
  from rr c have "set (extracted_relations eq) \<subseteq> set rels"
    by (auto simp: resolver_relations_def split: sum.splits)
  with assms(3) have "r \<in> set rels"
    by blast
  with p show ?thesis
    using assms(4,5,6) by (rule PartialOrderTuple_before)
qed

theorem dimension_sort_respects_relations_witness:
  "dimension_sort 0 
        \<lparr>lhs = Indexed ''u'' [xd, xd, yd] [Dim xd, Op ''Add'' [Integer 1, Dim xd], Dim yd],
        rhs = Integer 0, subdomain_indices = None\<rparr> = Inr [Dim xd, Dim yd]
   \<and> subdomain_indices 
        \<lparr>lhs = Indexed ''u'' [xd, xd, yd] [Dim xd, Op ''Add'' [Integer 1, Dim xd], Dim yd],
        rhs = Integer 0, subdomain_indices = None\<rparr> = None
   \<and> [Dim xd, Dim xd, Dim yd] \<in> set (extracted_relations 
        \<lparr>lhs = Indexed ''u'' [xd, xd, yd] [Dim xd, Op ''Add'' [Integer 1, Dim xd], Dim yd],
        rhs = Integer 0, subdomain_indices = None\<rparr>)
   \<and> (0::nat) < 2 \<and> 2 < length [Dim xd, Dim xd, Dim yd]
   \<and> [Dim xd, Dim xd, Dim yd] ! 0 \<noteq> [Dim xd, Dim xd, Dim yd] ! 2
   \<and> before [Dim xd, Dim yd] ([Dim xd, Dim xd, Dim yd] ! 0) ([Dim xd, Dim xd, Dim yd] ! 2)"
proof -
  have a: "dimension_sort 0 
        \<lparr>lhs = Indexed ''u'' [xd, xd, yd] [Dim xd, Op ''Add'' [Integer 1, Dim xd], Dim yd],
        rhs = Integer 0, subdomain_indices = None\<rparr> = Inr [Dim xd, Dim yd]"
    by code_simp
  have b: "\<not> (\<exists>S. subdomain_indices 
        \<lparr>lhs = Indexed ''u'' [xd, xd, yd] [Dim xd, Op ''Add'' [Integer 1, Dim xd], Dim yd],
        rhs = Integer 0, subdomain_indices = None\<rparr> = Some S \<and> truthy S)"
    by simp
  have c: "[Dim xd, Dim xd, Dim yd] \<in> set (extracted_relations 
        \<lparr>lhs = Indexed ''u'' [xd, xd, yd] [Dim xd, Op ''Add'' [Integer 1, Dim xd], Dim yd],
        rhs = Integer 0, subdomain_indices = None\<rparr>)"
    by code_simp
  have d: "(0::nat) < 2" and e: "2 < length [Dim xd, Dim xd, Dim yd]"
    by simp_all
  have f: "[Dim xd, Dim xd, Dim yd] ! 0 \<noteq> [Dim xd, Dim xd, Dim yd] ! 2"
    by simp
  show ?thesis
    using dimension_sort_respects_relations [OF a b c d e f] a b c by simp
qed

text \<open>
  C2 as stated fails in two ways. With a Subdomain Ordering the relation \<open>(x, time)\<close> of
  \<open>u[x, time]\<close> is replaced by the reordered tuple \<open>(time, x, y)\<close>, and the result places
  \<open>time\<close> before \<open>x\<close>. And the relation of \<open>u[x, x+1]\<close> is \<open>(x, x)\<close>, whose first member
  cannot come before its second: the result is \<open>(x)\<close>.
\<close>

theorem dimension_sort_respects_relations_counterexample:
  "dimension_sort 0 \<lparr>lhs = Indexed ''u'' [xd, td] [Dim xd, Dim td], rhs = Integer 0,
        subdomain_indices = Some (Dim yd)\<rparr> = Inr [Dim td, Dim xd, Dim yd]
   \<and> [Dim xd, Dim td] \<in> set (extracted_relations \<lparr>lhs = Indexed ''u'' [xd, td] [Dim xd, Dim td],
        rhs = Integer 0, subdomain_indices = Some (Dim yd)\<rparr>)
   \<and> \<not> before [Dim td, Dim xd, Dim yd] (Dim xd) (Dim td)
   \<and> dimension_sort 0 \<lparr>lhs = Indexed ''u'' [xd, xd] [Dim xd, Op ''Add'' [Integer 1, Dim xd]],
        rhs = Integer 0, subdomain_indices = None\<rparr> = Inr [Dim xd]
   \<and> [Dim xd, Dim xd] \<in> set (extracted_relations
        \<lparr>lhs = Indexed ''u'' [xd, xd] [Dim xd, Op ''Add'' [Integer 1, Dim xd]],
         rhs = Integer 0, subdomain_indices = None\<rparr>)
   \<and> \<not> before [Dim xd] (Dim xd) (Dim xd)"
  by code_simp

text \<open>
  C3. The sort at an equation with a Subdomain Ordering and two distinct extracted
  relations, \<open>(y,)\<close> and \<open>(z, x)\<close>: the relation that \<open>set.pop()\<close> removes decides the
  combined relation and the result; the two choices give different sequences.
\<close>

theorem dimension_sort_pop_choice:
  "extracted_relations \<lparr>lhs = Indexed ''a'' [yd] [Dim yd], rhs = Indexed ''b'' [zd, xd] [Dim zd, Dim xd],
        subdomain_indices = Some (Dim td)\<rparr> = [[Dim yd], [Dim zd, Dim xd]]
   \<and> classified_relations 0 \<lparr>lhs = Indexed ''a'' [yd] [Dim yd], rhs = Indexed ''b'' [zd, xd] [Dim zd, Dim xd],
        subdomain_indices = Some (Dim td)\<rparr> = Inr [[Dim td, Dim yd]]
   \<and> classified_relations 1 \<lparr>lhs = Indexed ''a'' [yd] [Dim yd], rhs = Indexed ''b'' [zd, xd] [Dim zd, Dim xd],
        subdomain_indices = Some (Dim td)\<rparr> = Inr [[Dim td, Dim zd, Dim xd]]
   \<and> dimension_sort 0 \<lparr>lhs = Indexed ''a'' [yd] [Dim yd], rhs = Indexed ''b'' [zd, xd] [Dim zd, Dim xd],
        subdomain_indices = Some (Dim td)\<rparr> = Inr [Dim xd, Dim zd, Dim td, Dim yd]
   \<and> dimension_sort 1 \<lparr>lhs = Indexed ''a'' [yd] [Dim yd], rhs = Indexed ''b'' [zd, xd] [Dim zd, Dim xd],
        subdomain_indices = Some (Dim td)\<rparr> = Inr [Dim yd, Dim td, Dim zd, Dim xd]"
  by code_simp

end
